theory Spec2Isabelle
  imports Main "HOL-Library.Sublist" "HOL-Library.Multiset"
begin

section \<open>Gmail summarizer and URL extractor: text pipeline and digest\<close>

text \<open>
  The repository holds two classes, \<^verbatim>\<open>GmailAISummarizer\<close> (gmail_ai_summarizer.py) and
  \<^verbatim>\<open>GmailURLExtractor\<close> (gmail_url_extractor.py). Both clean a message body, extract the
  URLs of the cleaned text with one regular expression, and fold a list of email dicts into
  a digest dict. Methods of the first class carry the prefix \<open>summarizer_\<close> here, methods of
  the second the prefix \<open>extractor_\<close>.

  Python strings are sequences of code points. The text handed to the regular expression
  is a \<^typ>\<open>string\<close>, a list of 8-bit characters read as the code points 0 to 255: every
  code point above 255 is outside each character class of the pattern, as the code points
  128 to 255 are. The text that \<^verbatim>\<open>clean_email_content\<close> cleans is a list of code points,
  since Python's white space and line breaks reach beyond code point 255.
\<close>

subsection \<open>The regular expression of \<^verbatim>\<open>extract_urls_from_text\<close>\<close>

text \<open>
  \<^verbatim>\<open>url_pattern = r'http[s]?://(?:[a-zA-Z]|[0-9]|[$-_@.&+]|[!*\\(\\),]|(?:%[0-9a-fA-F][0-9a-fA-F]))+'\<close>

  Inside a character class \<^verbatim>\<open>$-_\<close> is a range, from code point 0x24 to 0x5F; in the raw
  string \<^verbatim>\<open>\\\<close> is an escaped backslash.
\<close>

definition in_range :: "char \<Rightarrow> char \<Rightarrow> char \<Rightarrow> bool" where
  "in_range lo hi c \<longleftrightarrow> (of_char lo :: nat) \<le> of_char c \<and> (of_char c :: nat) \<le> of_char hi"

definition alt_letter :: "char \<Rightarrow> bool" where
  \<comment> \<open>\<^verbatim>\<open>[a-zA-Z]\<close>\<close>
  "alt_letter c \<longleftrightarrow> in_range CHR ''a'' CHR ''z'' c \<or> in_range CHR ''A'' CHR ''Z'' c"

definition alt_digit :: "char \<Rightarrow> bool" where
  \<comment> \<open>\<^verbatim>\<open>[0-9]\<close>\<close>
  "alt_digit c \<longleftrightarrow> in_range CHR ''0'' CHR ''9'' c"

definition alt_symbol :: "char \<Rightarrow> bool" where
  \<comment> \<open>\<^verbatim>\<open>[$-_@.&+]\<close>: the range from \<^verbatim>\<open>$\<close> to \<^verbatim>\<open>_\<close>, and four single characters\<close>
  "alt_symbol c \<longleftrightarrow> in_range CHR ''$'' CHR ''_'' c
      \<or> c = CHR ''@'' \<or> c = CHR ''.'' \<or> c = CHR ''&'' \<or> c = CHR ''+''"

definition alt_punct :: "char \<Rightarrow> bool" where
  \<comment> \<open>\<^verbatim>\<open>[!*\\(\\),]\<close>: the backslash (0x5C) is listed twice\<close>
  "alt_punct c \<longleftrightarrow> c = CHR ''!'' \<or> c = CHR ''*'' \<or> c = CHR 0x5C \<or> c = CHR ''(''
      \<or> c = CHR 0x5C \<or> c = CHR '')'' \<or> c = CHR '',''"

definition hex_digit :: "char \<Rightarrow> bool" where
  \<comment> \<open>\<^verbatim>\<open>[0-9a-fA-F]\<close>\<close>
  "hex_digit c \<longleftrightarrow> in_range CHR ''0'' CHR ''9'' c \<or> in_range CHR ''a'' CHR ''f'' c
      \<or> in_range CHR ''A'' CHR ''F'' c"

text \<open>
  The greedy repetition of the group: at each step the alternatives are tried in the order
  of the pattern, the first that matches is taken, and the repetition stops where none
  matches. Nothing follows the group in the pattern, so the engine never gives back a
  repetition. The result is the number of characters consumed.
\<close>

fun match_group :: "string \<Rightarrow> nat" where
  "match_group [] = 0"
| "match_group (c # cs) =
     (if alt_letter c then Suc (match_group cs)
      else if alt_digit c then Suc (match_group cs)
      else if alt_symbol c then Suc (match_group cs)
      else if alt_punct c then Suc (match_group cs)
      else (case cs of
              h1 # h2 # rest \<Rightarrow>
                if c = CHR ''%'' \<and> hex_digit h1 \<and> hex_digit h2
                then 3 + match_group rest else 0
            | _ \<Rightarrow> 0))"

definition match_tail :: "string \<Rightarrow> nat option" where
  \<comment> \<open>\<^verbatim>\<open>://\<close> and one or more repetitions of the group\<close>
  "match_tail s =
     (if take 3 s = ''://'' \<and> 0 < match_group (drop 3 s)
      then Some (3 + match_group (drop 3 s)) else None)"

definition match_here :: "string \<Rightarrow> nat option" where
  \<comment> \<open>the whole pattern at the start of \<open>s\<close>: \<^verbatim>\<open>[s]?\<close> first tries the \<^verbatim>\<open>s\<close>, then
      the empty string; the result is the length of the match\<close>
  "match_here s =
     (if take 4 s = ''http'' then
        (case (if take 1 (drop 4 s) = ''s'' then match_tail (drop 5 s) else None) of
           Some n \<Rightarrow> Some (5 + n)
         | None \<Rightarrow> (case match_tail (drop 4 s) of Some n \<Rightarrow> Some (4 + n) | None \<Rightarrow> None))
      else None)"

text \<open>
  \<^verbatim>\<open>re.findall(url_pattern, text)\<close>: the pattern has no capturing group, so the result is
  the list of the matched substrings, found from left to right without overlap.
\<close>

function re_findall :: "string \<Rightarrow> string list" where
  "re_findall [] = []"
| "re_findall (c # cs) =
     (case match_here (c # cs) of
        Some n \<Rightarrow> take n (c # cs) # re_findall (drop n (c # cs))
      | None \<Rightarrow> re_findall cs)"
  by pat_completeness auto
termination
  by (relation "measure length")
     (auto simp: match_here_def match_tail_def split: if_splits option.splits)

definition list_set :: "'a list \<Rightarrow> 'a list" where
  \<comment> \<open>\<^verbatim>\<open>list(set(xs))\<close>: Python leaves the iteration order of a set open; the model lists
      the distinct elements in one fixed order, and no theorem below depends on that order\<close>
  "list_set xs = remdups xs"

definition summarizer_extract_urls_from_text :: "string \<Rightarrow> string list" where
  "summarizer_extract_urls_from_text text = (let urls = re_findall text in list_set urls)"

definition extractor_extract_urls_from_text :: "string \<Rightarrow> string list" where
  "extractor_extract_urls_from_text text = (let urls = re_findall text in list_set urls)"

text \<open>
  The character set as section 4.2 of the specification words it: letters, digits and the
  symbols \<^verbatim>\<open>$-_@.&+!*'(),\<close> each read as a single character, plus \<^verbatim>\<open>%XX\<close>.
\<close>

definition spec_symbol :: "char \<Rightarrow> bool" where
  "spec_symbol c \<longleftrightarrow> c \<in> set [CHR ''$'', CHR ''-'', CHR ''_'', CHR ''@'', CHR ''.'', CHR ''&'',
      CHR ''+'', CHR ''!'', CHR ''*'', CHR 0x27, CHR ''('', CHR '')'', CHR '','']"

fun spec_url_body :: "string \<Rightarrow> bool" where
  "spec_url_body [] = True"
| "spec_url_body (c # cs) =
     (if alt_letter c \<or> alt_digit c \<or> spec_symbol c then spec_url_body cs
      else (case cs of
              h1 # h2 # rest \<Rightarrow> c = CHR ''%'' \<and> hex_digit h1 \<and> hex_digit h2 \<and> spec_url_body rest
            | _ \<Rightarrow> False))"

text \<open>The character set the pattern accepts, in one predicate.\<close>

definition url_class :: "char \<Rightarrow> bool" where
  "url_class c \<longleftrightarrow> alt_letter c \<or> alt_digit c \<or> c = CHR ''!'' \<or> in_range CHR ''$'' CHR ''_'' c"

subsection \<open>Whitespace clean-up of \<^verbatim>\<open>clean_email_content\<close>\<close>

text \<open>
  A Python \<^verbatim>\<open>str\<close> is the list of its code points; \<open>ustr\<close> reads a literal.
\<close>

type_synonym ustring = "nat list"

definition ustr :: "string \<Rightarrow> ustring" where
  "ustr s = map of_char s"

definition space :: nat where
  "space = 0x20"

text \<open>
  The string methods of Python that the clean-up uses. \<^verbatim>\<open>str.splitlines()\<close> breaks
  at \<^verbatim>\<open>\n\<close>, \<^verbatim>\<open>\r\<close>, \<^verbatim>\<open>\r\n\<close>, \<^verbatim>\<open>\v\<close>, \<^verbatim>\<open>\f\<close>, U+001C, U+001D, U+001E, U+0085,
  U+2028 and U+2029, and gives no empty last line; \<^verbatim>\<open>str.strip()\<close> removes the characters
  of \<^verbatim>\<open>str.isspace\<close> from both ends; \<^verbatim>\<open>str.split(sep)\<close> cuts at the occurrences of \<open>sep\<close>
  found from left to right.
\<close>

definition line_boundary :: "nat \<Rightarrow> bool" where
  "line_boundary c \<longleftrightarrow> c \<in> set [0x0A, 0x0B, 0x0C, 0x0D, 0x1C, 0x1D, 0x1E, 0x85, 0x2028, 0x2029]"

definition isspace :: "nat \<Rightarrow> bool" where
  \<comment> \<open>the code points of general category Zs or of bidirectional class WS, B or S\<close>
  "isspace c \<longleftrightarrow> (0x09 \<le> c \<and> c \<le> 0x0D) \<or> (0x1C \<le> c \<and> c \<le> 0x1F) \<or> c = 0x20
      \<or> c = 0x85 \<or> c = 0xA0 \<or> c = 0x1680 \<or> (0x2000 \<le> c \<and> c \<le> 0x200A)
      \<or> c = 0x2028 \<or> c = 0x2029 \<or> c = 0x202F \<or> c = 0x205F \<or> c = 0x3000"

definition push_front :: "'a \<Rightarrow> 'a list list \<Rightarrow> 'a list list" where
  \<comment> \<open>one more character at the front of the first piece\<close>
  "push_front c ps = (case ps of [] \<Rightarrow> [[c]] | p # ps' \<Rightarrow> (c # p) # ps')"

fun splitlines :: "ustring \<Rightarrow> ustring list" where
  "splitlines (c # d # ds) =
     (if c = 0x0D \<and> d = 0x0A then [] # splitlines ds
      else if line_boundary c then [] # splitlines (d # ds)
      else push_front c (splitlines (d # ds)))"
| "splitlines [c] = (if line_boundary c then [[]] else [[c]])"
| "splitlines [] = []"

definition strip :: "ustring \<Rightarrow> ustring" where
  "strip s = rev (dropWhile isspace (rev (dropWhile isspace s)))"

fun split_double_space :: "ustring \<Rightarrow> ustring list" where
  \<comment> \<open>\<^verbatim>\<open>line.split("  ")\<close>\<close>
  "split_double_space (c # d # ds) =
     (if c = space \<and> d = space then [] # split_double_space ds
      else push_front c (split_double_space (d # ds)))"
| "split_double_space [c] = [[c]]"
| "split_double_space [] = [[]]"

fun join_space :: "ustring list \<Rightarrow> ustring" where
  \<comment> \<open>\<^verbatim>\<open>' '.join(chunks)\<close>\<close>
  "join_space [] = []"
| "join_space [x] = x"
| "join_space (x # y # ys) = x @ [space] @ join_space (y # ys)"

definition clean_whitespace :: "ustring \<Rightarrow> ustring" where
  \<comment> \<open>the three lines under \<^verbatim>\<open># Clean up whitespace\<close>\<close>
  "clean_whitespace text =
     (let lines = map strip (splitlines text);
          chunks = concat (map (\<lambda>line. map strip (split_double_space line)) lines)
      in join_space (filter (\<lambda>chunk. chunk \<noteq> []) chunks))"

datatype error = Raised string

text \<open>
  The argument of \<^verbatim>\<open>clean_email_content\<close> is a \<^verbatim>\<open>str\<close> or missing (\<^verbatim>\<open>None\<close>):
  \<^verbatim>\<open>if not content\<close> holds for \<^verbatim>\<open>None\<close> and for the empty string. The libraries that
  the method calls are parameters of the model:
  \<^item> \<open>b64decode_utf8\<close> is the body of the \<^verbatim>\<open>try\<close>,
    \<^verbatim>\<open>base64.urlsafe_b64decode(content).decode('utf-8')\<close>, with \<open>None\<close> when it raises
    (the bare \<^verbatim>\<open>except: pass\<close> then leaves \<open>content\<close> as it was);
  \<^item> \<open>soup_get_text\<close> is \<^verbatim>\<open>BeautifulSoup(content, 'html.parser')\<close>, the removal of the
    \<^verbatim>\<open>script\<close> and \<^verbatim>\<open>style\<close> elements and \<^verbatim>\<open>soup.get_text()\<close>; these calls stand outside
    the \<^verbatim>\<open>try\<close>, so an exception of the parser leaves \<^verbatim>\<open>clean_email_content\<close>.
\<close>

definition summarizer_clean_email_content ::
  "(ustring \<Rightarrow> ustring option) \<Rightarrow> (ustring \<Rightarrow> error + ustring) \<Rightarrow> ustring option \<Rightarrow> error + ustring" where
  "summarizer_clean_email_content b64decode_utf8 soup_get_text content =
     (case content of
        None \<Rightarrow> Inr []
      | Some content \<Rightarrow>
          (if content = [] then Inr []
           else
             let content' = (case b64decode_utf8 content of Some decoded \<Rightarrow> decoded | None \<Rightarrow> content)
             in (case soup_get_text content' of
                   Inl e \<Rightarrow> Inl e
                 | Inr text \<Rightarrow> Inr (clean_whitespace text))))"

definition extractor_clean_email_content ::
  "(ustring \<Rightarrow> ustring option) \<Rightarrow> (ustring \<Rightarrow> error + ustring) \<Rightarrow> ustring option \<Rightarrow> error + ustring" where
  "extractor_clean_email_content b64decode_utf8 soup_get_text content =
     (case content of
        None \<Rightarrow> Inr []
      | Some content \<Rightarrow>
          (if content = [] then Inr []
           else
             let content' = (case b64decode_utf8 content of Some decoded \<Rightarrow> decoded | None \<Rightarrow> content)
             in (case soup_get_text content' of
                   Inl e \<Rightarrow> Inl e
                 | Inr text \<Rightarrow> Inr (clean_whitespace text))))"

text \<open>The properties of a cleaned text: one line, no white space at either end, no two
  spaces in a row.\<close>

fun no_double_space :: "ustring \<Rightarrow> bool" where
  "no_double_space (c # d # ds) = (\<not> (c = space \<and> d = space) \<and> no_double_space (d # ds))"
| "no_double_space [c] = True"
| "no_double_space [] = True"

definition trimmed :: "ustring \<Rightarrow> bool" where
  "trimmed s \<longleftrightarrow> s = [] \<or> (\<not> isspace (hd s) \<and> \<not> isspace (last s))"

definition single_line :: "ustring \<Rightarrow> bool" where
  "single_line s \<longleftrightarrow> list_all (\<lambda>c. \<not> line_boundary c) s"

subsection \<open>Body selection of \<^verbatim>\<open>get_email_content\<close>\<close>

text \<open>
  The payload of a Gmail message: its headers, its \<^verbatim>\<open>parts\<close> when the key is present,
  and its own body. A body is a dict whose key \<^verbatim>\<open>data\<close> may be missing.
\<close>

record body =
  data :: "string option"

record part =
  mimeType :: string
  part_body :: body

record payload =
  headers :: "(string \<times> string) list"
  parts :: "part list option"
  payload_body :: body

definition get_data :: "body \<Rightarrow> string" where
  \<comment> \<open>\<^verbatim>\<open>.get('data', '')\<close>\<close>
  "get_data b = (case data b of Some d \<Rightarrow> d | None \<Rightarrow> [])"

text \<open>The loop over the parts, with the value of \<^verbatim>\<open>body\<close> so far; the first equation of
  the step is the \<^verbatim>\<open>break\<close>.\<close>

fun scan_parts :: "string \<Rightarrow> part list \<Rightarrow> string" where
  "scan_parts body [] = body"
| "scan_parts body (p # ps) =
     (if mimeType p = ''text/plain'' then get_data (part_body p)
      else if mimeType p = ''text/html'' then scan_parts (get_data (part_body p)) ps
      else scan_parts body ps)"

definition summarizer_get_email_content_body :: "payload \<Rightarrow> string" where
  \<comment> \<open>gmail_ai_summarizer.py, lines 128 to 137\<close>
  "summarizer_get_email_content_body pl =
     (case parts pl of
        Some ps \<Rightarrow> scan_parts [] ps
      | None \<Rightarrow> get_data (payload_body pl))"

definition extractor_get_email_content_body :: "payload \<Rightarrow> string" where
  \<comment> \<open>gmail_url_extractor.py, lines 119 to 128\<close>
  "extractor_get_email_content_body pl =
     (case parts pl of
        Some ps \<Rightarrow> scan_parts [] ps
      | None \<Rightarrow> get_data (payload_body pl))"

subsection \<open>The digest\<close>

text \<open>
  The email dicts that \<^verbatim>\<open>fetch_emails\<close> builds have a fixed set of keys: six common ones,
  four more in the summarizer and one more in the extractor.
\<close>

record email =
  email_id :: string
  subject :: string
  sender :: string
  date :: string
  content :: string
  urls :: "string list"

record ai_email = email +
  summary :: string
  key_points :: "string list"
  action_items :: "string list"
  sentiment :: string

record url_email = email +
  url_count :: int

text \<open>
  A Python dict keeps its keys in the order of their first insertion; a count table is an
  association list in that order. \<open>dict_set\<close> is \<^verbatim>\<open>d[k] = v\<close>: the value of a present key
  is replaced in place, a new key goes to the end.
\<close>

type_synonym counts = "(string \<times> int) list"

definition dict_get :: "counts \<Rightarrow> string \<Rightarrow> int \<Rightarrow> int" where
  \<comment> \<open>\<^verbatim>\<open>d.get(k, default)\<close>\<close>
  "dict_get d k dflt = (case map_of d k of Some v \<Rightarrow> v | None \<Rightarrow> dflt)"

fun dict_set :: "counts \<Rightarrow> string \<Rightarrow> int \<Rightarrow> counts" where
  "dict_set [] k v = [(k, v)]"
| "dict_set ((k', v') # d) k v = (if k' = k then (k, v) # d else (k', v') # dict_set d k v)"

definition count_key :: "counts \<Rightarrow> string \<Rightarrow> counts" where
  \<comment> \<open>\<^verbatim>\<open>d[k] = d.get(k, 0) + 1\<close>\<close>
  "count_key d k = dict_set d k (dict_get d k 0 + 1)"

definition py_sorted_reverse :: "('a \<Rightarrow> int) \<Rightarrow> 'a list \<Rightarrow> 'a list" where
  \<comment> \<open>\<^verbatim>\<open>sorted(xs, key=key, reverse=True)\<close>: a stable sort of the reversed list, reversed\<close>
  "py_sorted_reverse key xs = rev (sort_key key (rev xs))"

text \<open>The values of a digest dict, and the digest as a map from its keys; the empty dict
  \<^verbatim>\<open>{}\<close> is the empty map.\<close>

datatype dval =
    VInt int
  | VStrList "string list"
  | VDict counts
  | VPairs "(string \<times> int) list"
  | VDateRange "string option" "string option"

type_synonym digest = "string \<rightharpoonup> dval"

definition all_urls_of :: "'a email_scheme list \<Rightarrow> string list" where
  \<comment> \<open>\<^verbatim>\<open>all_urls = []; for email in emails: all_urls.extend(email['urls'])\<close>\<close>
  "all_urls_of emails = foldl (\<lambda>all_urls email. all_urls @ urls email) [] emails"

definition sender_counts_of :: "'a email_scheme list \<Rightarrow> counts" where
  "sender_counts_of emails = foldl (\<lambda>sender_counts email. count_key sender_counts (sender email)) [] emails"

definition summarizer_create_digest :: "ai_email list \<Rightarrow> digest" where
  "summarizer_create_digest emails =
     (if emails = [] then Map.empty
      else
        let all_urls = all_urls_of emails;
            sentiment_counts = foldl (\<lambda>d email. count_key d (sentiment email)) [] emails;
            all_action_items = foldl (\<lambda>items email. items @ action_items email) [] emails;
            sender_counts = sender_counts_of emails
        in [''total_emails'' \<mapsto> VInt (int (length emails)),
            ''unique_urls'' \<mapsto> VStrList (list_set all_urls),
            ''sentiment_distribution'' \<mapsto> VDict sentiment_counts,
            ''action_items'' \<mapsto> VStrList all_action_items,
            ''top_senders'' \<mapsto> VPairs (take 5 (py_sorted_reverse snd sender_counts)),
            ''date_range'' \<mapsto> VDateRange
               (if emails \<noteq> [] then Some (date (last emails)) else None)
               (if emails \<noteq> [] then Some (date (hd emails)) else None)])"

text \<open>
  \<open>urlparse_netloc\<close> is \<^verbatim>\<open>urllib.parse.urlparse(url).netloc\<close>, a parameter of the model,
  with \<open>None\<close> when the call raises (the \<^verbatim>\<open>except: pass\<close> then skips the URL).
\<close>

definition url_domains_of :: "(string \<Rightarrow> string option) \<Rightarrow> string list \<Rightarrow> counts" where
  "url_domains_of urlparse_netloc all_urls =
     foldl (\<lambda>url_domains url.
              case urlparse_netloc url of
                Some domain \<Rightarrow> count_key url_domains domain
              | None \<Rightarrow> url_domains) [] all_urls"

definition extractor_create_digest :: "(string \<Rightarrow> string option) \<Rightarrow> url_email list \<Rightarrow> digest" where
  "extractor_create_digest urlparse_netloc emails =
     (if emails = [] then Map.empty
      else
        let all_urls = all_urls_of emails;
            sender_counts = sender_counts_of emails;
            url_domains = url_domains_of urlparse_netloc all_urls
        in [''total_emails'' \<mapsto> VInt (int (length emails)),
            ''unique_urls'' \<mapsto> VStrList (list_set all_urls),
            ''total_urls'' \<mapsto> VInt (int (length all_urls)),
            ''top_senders'' \<mapsto> VPairs (take 5 (py_sorted_reverse snd sender_counts)),
            ''url_domains'' \<mapsto> VPairs (take 10 (py_sorted_reverse snd url_domains)),
            ''date_range'' \<mapsto> VDateRange
               (if emails \<noteq> [] then Some (date (last emails)) else None)
               (if emails \<noteq> [] then Some (date (hd emails)) else None)])"

text \<open>
  A model of \<^verbatim>\<open>urlparse(url).netloc\<close> on the strings that \<^verbatim>\<open>extract_urls_from_text\<close>
  returns, used for the concrete digests below. The authority is what stands between the
  \<^verbatim>\<open>//\<close> after the scheme and the next \<^verbatim>\<open>/\<close>, \<^verbatim>\<open>?\<close> or \<^verbatim>\<open>#\<close>, and \<^verbatim>\<open>urlsplit\<close> raises
  \<^verbatim>\<open>ValueError\<close> when the authority holds one of the brackets \<^verbatim>\<open>[\<close> and \<^verbatim>\<open>]\<close> without the
  other. (Python 3.11.4 and later also check the host between two brackets; the model does
  not, and is used below at authorities without brackets only.)
\<close>

definition netloc_of :: "string \<Rightarrow> string option" where
  "netloc_of url =
     (let rest = (if take 8 url = ''https://'' then drop 8 url
                  else if take 7 url = ''http://'' then drop 7 url else []);
          netloc = takeWhile (\<lambda>c. c \<noteq> CHR ''/'' \<and> c \<noteq> CHR ''?'' \<and> c \<noteq> CHR ''#'') rest
      in if (CHR ''['' \<in> set netloc) \<noteq> (CHR '']'' \<in> set netloc) then None else Some netloc)"

text \<open>
  The summarizer's \<^verbatim>\<open>main\<close> counts the domains a second time for its chart
  (gmail_ai_summarizer.py, lines 506 to 513), with the loop body of the extractor, over
  \<^verbatim>\<open>digest['unique_urls']\<close>.
\<close>

definition summarizer_main_url_domains :: "(string \<Rightarrow> string option) \<Rightarrow> string list \<Rightarrow> counts" where
  "summarizer_main_url_domains urlparse_netloc unique_urls =
     foldl (\<lambda>url_domains url.
              case urlparse_netloc url of
                Some domain \<Rightarrow> count_key url_domains domain
              | None \<Rightarrow> url_domains) [] unique_urls"

text \<open>The notions of the specification that the claims on the rankings use.\<close>

fun first_seen :: "'a list \<Rightarrow> 'a list" where
  \<comment> \<open>the distinct elements of a list, in the order of their first appearance\<close>
  "first_seen [] = []"
| "first_seen (x # xs) = x # removeAll x (first_seen xs)"

definition grouped_counts :: "string list \<Rightarrow> (string \<times> int) list" where
  \<comment> \<open>one pair per distinct key, in first-seen order, with the number of its occurrences\<close>
  "grouped_counts ks = map (\<lambda>k. (k, int (count_list ks k))) (first_seen ks)"

definition ranking_of :: "(string \<times> int) list \<Rightarrow> (string \<times> int) list \<Rightarrow> bool" where
  \<comment> \<open>\<open>ranked\<close> holds the pairs of \<open>groups\<close>, in descending order of count, and the pairs
      of equal count stand in it in the order they have in \<open>groups\<close>\<close>
  "ranking_of groups ranked \<longleftrightarrow>
     mset ranked = mset groups \<and>
     sorted_wrt (\<lambda>p q. snd q \<le> snd p) ranked \<and>
     (\<forall>n. filter (\<lambda>p. snd p = n) ranked = filter (\<lambda>p. snd p = n) groups)"

definition spec_url_domains :: "(string \<Rightarrow> string option) \<Rightarrow> string list \<Rightarrow> (string \<times> int) list" where
  \<comment> \<open>section 4.4 of the specification: the domains of the unique URLs, grouped and
      counted, sorted in descending order of count, at most ten\<close>
  "spec_url_domains urlparse_netloc all_urls =
     take 10 (py_sorted_reverse snd (grouped_counts (List.map_filter urlparse_netloc (first_seen all_urls))))"

text \<open>
  What a match of the pattern is: \<open>url_match u post\<close> says that \<open>u\<close> is \<^verbatim>\<open>http://\<close> or
  \<^verbatim>\<open>https://\<close> followed by one or more characters of \<open>url_class\<close>, and that the text
  \<open>post\<close> after it is empty or starts with a character outside \<open>url_class\<close>.
\<close>

definition url_match :: "string \<Rightarrow> string \<Rightarrow> bool" where
  "url_match u post \<longleftrightarrow>
     (\<exists>body. (u = ''http://'' @ body \<or> u = ''https://'' @ body) \<and> body \<noteq> [] \<and> list_all url_class body)
     \<and> (post = [] \<or> \<not> url_class (hd post))"

text \<open>
  The body that section 4.3 of the specification selects: with parts, the payload of the
  first \<^verbatim>\<open>text/plain\<close> part, else the payload of the last \<^verbatim>\<open>text/html\<close> part (the empty
  string when there is neither); without parts, the payload of the message body.
\<close>

definition selected_body_spec :: "payload \<Rightarrow> string" where
  "selected_body_spec pl =
     (case parts pl of
        None \<Rightarrow> get_data (payload_body pl)
      | Some ps \<Rightarrow>
          (case find (\<lambda>p. mimeType p = ''text/plain'') ps of
             Some p \<Rightarrow> get_data (part_body p)
           | None \<Rightarrow>
               (case find (\<lambda>p. mimeType p = ''text/html'') (rev ps) of
                  Some p \<Rightarrow> get_data (part_body p)
                | None \<Rightarrow> [])))"

text \<open>Email dicts for the concrete digests below, built as \<^verbatim>\<open>fetch_emails\<close> builds them
  from a sender and a list of URLs, the other fields left empty.\<close>

definition url_email_of :: "string \<Rightarrow> string list \<Rightarrow> url_email" where
  "url_email_of s us =
     \<lparr>email_id = [], subject = [], sender = s, date = [], content = [], urls = us,
      url_count = int (length us)\<rparr>"

definition ai_email_of :: "string \<Rightarrow> string list \<Rightarrow> ai_email" where
  "ai_email_of s us =
     \<lparr>email_id = [], subject = [], sender = s, date = [], content = [], urls = us,
      summary = [], key_points = [], action_items = [], sentiment = ''neutral''\<rparr>"

definition text_part :: "string \<Rightarrow> string \<Rightarrow> part" where
  "text_part mime d = \<lparr>mimeType = mime, part_body = \<lparr>data = Some d\<rparr>\<rparr>"

definition count_keys :: "string list \<Rightarrow> counts" where
  \<comment> \<open>the counting loop \<^verbatim>\<open>for k in ks: d[k] = d.get(k, 0) + 1\<close>, from the empty dict\<close>
  "count_keys ks = foldl count_key [] ks"

text \<open>
  A decoder and an HTML parser for the concrete runs of \<^verbatim>\<open>clean_email_content\<close>, each
  used only where it agrees with the library:
  \<^item> \<open>decode_fails\<close>: the \<^verbatim>\<open>try\<close> body raises, as \<^verbatim>\<open>urlsafe_b64decode\<close> does with
    \<^verbatim>\<open>Incorrect padding\<close> on the two texts below, which hold ten and two characters of the
    base64 alphabet and no padding;
  \<^item> \<open>soup_stub\<close>: \<^verbatim>\<open>BeautifulSoup\<close> raises \<^verbatim>\<open>ParserRejectedMarkup\<close> on the text
    \<^verbatim>\<open><![x y]>\<close>, a marked section with an unknown keyword that \<^verbatim>\<open>html.parser\<close> gives up
    on; for a text with no \<^verbatim>\<open><\<close> and no \<^verbatim>\<open>&\<close>, which has no markup, \<^verbatim>\<open>get_text()\<close> is the
    text itself; every other text is outside the stub.
\<close>

definition decode_fails :: "ustring \<Rightarrow> ustring option" where
  "decode_fails encoded = None"

definition soup_stub :: "ustring \<Rightarrow> error + ustring" where
  "soup_stub markup =
     (if markup = ustr ''<![x y]>'' then Inl (Raised ''ParserRejectedMarkup'')
      else if of_char CHR ''<'' \<notin> set markup \<and> of_char CHR ''&'' \<notin> set markup then Inr markup
      else Inl (Raised ''outside the stub''))"

section \<open>Properties\<close>

subsection \<open>The matches of the pattern\<close>

text \<open>The four one-character alternatives together are \<open>url_class\<close>; the percent sign is
  in the range of the third alternative, so the fifth alternative is never reached.\<close>

lemma url_class_iff: "alt_letter c \<or> alt_digit c \<or> alt_symbol c \<or> alt_punct c \<longleftrightarrow> url_class c"
  by (auto simp: url_class_def alt_symbol_def alt_punct_def in_range_def)

lemma percent_url_class: "url_class CHR ''%''"
  by (simp add: url_class_def in_range_def)

lemma match_group_takeWhile: "match_group s = length (takeWhile url_class s)"
proof (induction s rule: match_group.induct)
  case 1
  show ?case by simp
next
  case (2 c cs)
  show ?case
  proof (cases "url_class c")
    case True
    then have "alt_letter c \<or> alt_digit c \<or> alt_symbol c \<or> alt_punct c"
      by (simp add: url_class_iff)
    with True 2 show ?thesis by auto
  next
    case False
    then have n: "\<not> alt_letter c" "\<not> alt_digit c" "\<not> alt_symbol c" "\<not> alt_punct c"
      using url_class_iff [of c] by auto
    from False have "c \<noteq> CHR ''%''" using percent_url_class by auto
    with n False show ?thesis by (simp split: list.splits)
  qed
qed

lemma take_eq_split: "take k s = p \<Longrightarrow> s = p @ drop k s"
  by (metis append_take_drop_id)

lemma match_tail_Some:
  assumes "match_tail s = Some n"
  shows "\<exists>body. s = ''://'' @ body @ dropWhile url_class (drop 3 s) \<and> body \<noteq> []
           \<and> list_all url_class body \<and> n = 3 + length body"
proof -
  let ?r = "drop 3 s"
  let ?b = "takeWhile url_class ?r"
  from assms have t: "take 3 s = ''://''" and pos: "0 < length ?b" and n: "n = 3 + length ?b"
    by (auto simp: match_tail_def match_group_takeWhile split: if_splits)
  have "s = ''://'' @ ?r" using take_eq_split [OF t] .
  then have "s = ''://'' @ ?b @ dropWhile url_class ?r" by simp
  moreover have "list_all url_class ?b" by (simp add: list_all_iff) (meson set_takeWhileD)
  ultimately show ?thesis using pos n by blast
qed

lemma url_match_tail:
  assumes "body \<noteq> []" "list_all url_class body"
    and "u = ''http://'' @ body \<or> u = ''https://'' @ body"
  shows "url_match u (dropWhile url_class r)"
  using assms hd_dropWhile [of url_class r] by (auto simp: url_match_def)

lemma match_here_Some:
  assumes "match_here s = Some n"
  shows "n \<le> length s \<and> url_match (take n s) (drop n s)"
proof -
  from assms have h: "take 4 s = ''http''"
    by (auto simp: match_here_def split: if_splits)
  have s4: "s = ''http'' @ drop 4 s" using take_eq_split [OF h] .
  consider (with_s) m where "take 1 (drop 4 s) = ''s''" "match_tail (drop 5 s) = Some m" "n = 5 + m"
    | (without_s) m where "match_tail (drop 4 s) = Some m" "n = 4 + m"
    using assms h by (auto simp: match_here_def split: if_splits option.splits)
  then show ?thesis
  proof cases
    case with_s
    from match_tail_Some [OF with_s(2)] obtain body where
      b: "drop 5 s = ''://'' @ body @ dropWhile url_class (drop 3 (drop 5 s))"
        "body \<noteq> []" "list_all url_class body" "m = 3 + length body" by blast
    have "drop 4 s = ''s'' @ drop 1 (drop 4 s)" using take_eq_split [OF with_s(1)] .
    then have "drop 4 s = ''s'' @ drop 5 s" by simp
    with s4 have "s = ''http'' @ ''s'' @ drop 5 s" by metis
    with b(1) have s: "s = ''https://'' @ body @ dropWhile url_class (drop 8 s)" by simp
    have n: "n = length (''https://'' @ body)" using with_s(3) b(4) by simp
    have "take n s = ''https://'' @ body" and "drop n s = dropWhile url_class (drop 8 s)"
      and "n \<le> length s"
      unfolding n using s
      by (metis append_eq_conv_conj append.assoc, metis append_eq_conv_conj append.assoc,
          metis append.assoc length_append le_add1)
    with b(2,3) show ?thesis using url_match_tail [of body "take n s" "drop 8 s"] by simp
  next
    case without_s
    from match_tail_Some [OF without_s(1)] obtain body where
      b: "drop 4 s = ''://'' @ body @ dropWhile url_class (drop 3 (drop 4 s))"
        "body \<noteq> []" "list_all url_class body" "m = 3 + length body" by blast
    with s4 have "s = ''http'' @ ''://'' @ body @ dropWhile url_class (drop 3 (drop 4 s))" by metis
    then have s: "s = ''http://'' @ body @ dropWhile url_class (drop 7 s)" by simp
    have n: "n = length (''http://'' @ body)" using without_s(2) b(4) by simp
    have "take n s = ''http://'' @ body" and "drop n s = dropWhile url_class (drop 7 s)"
      and "n \<le> length s"
      unfolding n using s
      by (metis append_eq_conv_conj append.assoc, metis append_eq_conv_conj append.assoc,
          metis append.assoc length_append le_add1)
    with b(2,3) show ?thesis using url_match_tail [of body "take n s" "drop 7 s"] by simp
  qed
qed

lemma re_findall_match:
  "u \<in> set (re_findall t) \<Longrightarrow> \<exists>pre post. t = pre @ u @ post \<and> url_match u post"
proof (induction t rule: re_findall.induct)
  case 1
  then show ?case by simp
next
  case (2 c cs)
  show ?case
  proof (cases "match_here (c # cs)")
    case None
    with 2 obtain pre post where "cs = pre @ u @ post" "url_match u post" by auto
    then have "c # cs = (c # pre) @ u @ post" by simp
    with \<open>url_match u post\<close> show ?thesis by blast
  next
    case (Some n)
    from match_here_Some [OF Some]
    have m: "url_match (take n (c # cs)) (drop n (c # cs))" by simp
    from 2(3) Some have "u = take n (c # cs) \<or> u \<in> set (re_findall (drop n (c # cs)))" by simp
    then show ?thesis
    proof
      assume "u = take n (c # cs)"
      then have "c # cs = [] @ u @ drop n (c # cs)" by simp
      with m \<open>u = take n (c # cs)\<close> show ?thesis by blast
    next
      assume "u \<in> set (re_findall (drop n (c # cs)))"
      with 2(2) [OF Some] obtain pre post where
        "drop n (c # cs) = pre @ u @ post" "url_match u post" by blast
      then have "c # cs = (take n (c # cs) @ pre) @ u @ post"
        by (metis append.assoc append_take_drop_id)
      with \<open>url_match u post\<close> show ?thesis by blast
    qed
  qed
qed

lemma example_value:
  "summarizer_extract_urls_from_text ''Visit https://example.com/page?a=1 now and http://x.io.''
    = [''https://example.com/page?a=1'', ''http://x.io.'']"
  by code_simp

subsection \<open>Claims on \<^verbatim>\<open>extract_urls_from_text\<close>\<close>

text \<open>
  Claim C3. For every input text, the list that \<^verbatim>\<open>extract_urls_from_text\<close> returns has no
  duplicate, and each of its elements begins with \<^verbatim>\<open>http://\<close> or \<^verbatim>\<open>https://\<close>; for the
  empty text the list is empty.
\<close>

theorem extract_urls_distinct_and_prefixed:
  "distinct (summarizer_extract_urls_from_text t)
   \<and> (\<forall>u \<in> set (summarizer_extract_urls_from_text t). prefix ''http://'' u \<or> prefix ''https://'' u)
   \<and> summarizer_extract_urls_from_text [] = []"
proof -
  have "prefix ''http://'' u \<or> prefix ''https://'' u" if "u \<in> set (re_findall t)" for u
  proof -
    from re_findall_match [OF that] obtain post where "url_match u post" by blast
    then show ?thesis by (auto simp: url_match_def)
  qed
  then show ?thesis
    by (simp add: summarizer_extract_urls_from_text_def list_set_def)
qed

text \<open>C3 at a text that holds the same URL twice.\<close>

theorem extract_urls_distinct_and_prefixed_witness:
  "''http://x.io'' \<in> set (summarizer_extract_urls_from_text ''a http://x.io b http://x.io'')
   \<and> prefix ''http://'' ''http://x.io''
   \<and> distinct (summarizer_extract_urls_from_text ''a http://x.io b http://x.io'')"
proof -
  have m: "''http://x.io'' \<in> set (summarizer_extract_urls_from_text ''a http://x.io b http://x.io'')"
    by code_simp
  have p: "\<not> prefix ''https://'' ''http://x.io''" by simp
  from extract_urls_distinct_and_prefixed [of "''a http://x.io b http://x.io''"] m p
  show ?thesis by blast
qed

text \<open>
  Claim C4, as stated, fails: the slash and the backslash are not in the set of section 4.2,
  and both are matched, being in the range \<^verbatim>\<open>$-_\<close>.
\<close>

theorem extract_urls_charset_counterexample:
  "summarizer_extract_urls_from_text ''see http://a/b now'' = [''http://a/b'']
   \<and> \<not> spec_url_body ''a/b''
   \<and> extractor_extract_urls_from_text (''http://a'' @ [CHR 0x5C] @ ''b'') = [''http://a'' @ [CHR 0x5C] @ ''b'']
   \<and> \<not> spec_url_body (''a'' @ [CHR 0x5C] @ ''b'')"
  by code_simp

text \<open>
  Claim C4, amended. In both classes every extracted URL is a substring of the text that
  consists of \<^verbatim>\<open>http://\<close> or \<^verbatim>\<open>https://\<close> and one or more characters of \<open>url_class\<close>
  (an ASCII letter, a digit, \<^verbatim>\<open>!\<close>, or a character from \<^verbatim>\<open>$\<close>, 0x24, to \<^verbatim>\<open>_\<close>, 0x5F, which
  takes in the percent sign, the slash and the backslash), and the match is maximal: the
  text ends after it, or goes on with a character outside \<open>url_class\<close>.
\<close>

theorem extract_urls_match_shape:
  assumes "u \<in> set (summarizer_extract_urls_from_text t) \<or> u \<in> set (extractor_extract_urls_from_text t)"
  shows "\<exists>pre post. t = pre @ u @ post \<and> url_match u post"
  using assms re_findall_match [of u t]
  by (simp add: summarizer_extract_urls_from_text_def extractor_extract_urls_from_text_def list_set_def)

text \<open>C4 at the text of the counterexample: the match \<^verbatim>\<open>http://a/b\<close> ends at the space.\<close>

theorem extract_urls_match_shape_witness:
  "''http://a/b'' \<in> set (summarizer_extract_urls_from_text ''see http://a/b now'')
   \<and> (\<exists>pre post. ''see http://a/b now'' = pre @ ''http://a/b'' @ post \<and> url_match ''http://a/b'' post)"
proof -
  have m: "''http://a/b'' \<in> set (summarizer_extract_urls_from_text ''see http://a/b now'')"
    by code_simp
  then have "''http://a/b'' \<in> set (summarizer_extract_urls_from_text ''see http://a/b now'')
      \<or> ''http://a/b'' \<in> set (extractor_extract_urls_from_text ''see http://a/b now'')" ..
  from extract_urls_match_shape [OF this] m show ?thesis by blast
qed

text \<open>
  Claim C5, as stated, fails: the full stop is in the character class, so the second URL
  of the example text keeps it.
\<close>

theorem extract_urls_example_counterexample:
  "set (summarizer_extract_urls_from_text ''Visit https://example.com/page?a=1 now and http://x.io.'')
   \<noteq> {''https://example.com/page?a=1'', ''http://x.io''}"
proof -
  have "''http://x.io.'' \<in> set (summarizer_extract_urls_from_text ''Visit https://example.com/page?a=1 now and http://x.io.'')"
    unfolding example_value by simp
  moreover have "''http://x.io.'' \<notin> {''https://example.com/page?a=1'', ''http://x.io''}"
    by simp
  ultimately show ?thesis by metis
qed

text \<open>
  Claim C5, amended. For the example text \<^verbatim>\<open>extract_urls_from_text\<close> returns the two
  strings \<^verbatim>\<open>https://example.com/page?a=1\<close> and \<^verbatim>\<open>http://x.io.\<close>, the second with the full
  stop that ends the sentence.
\<close>

theorem extract_urls_example:
  "set (summarizer_extract_urls_from_text ''Visit https://example.com/page?a=1 now and http://x.io.'')
   = {''https://example.com/page?a=1'', ''http://x.io.''}
   \<and> length (summarizer_extract_urls_from_text ''Visit https://example.com/page?a=1 now and http://x.io.'') = 2"
  unfolding example_value by simp

subsection \<open>Claim on the body selection\<close>

lemma find_snoc:
  "find P (xs @ [x]) = (case find P xs of Some y \<Rightarrow> Some y | None \<Rightarrow> (if P x then Some x else None))"
  by (induction xs) auto

lemma scan_parts_spec:
  "scan_parts body ps =
     (case find (\<lambda>p. mimeType p = ''text/plain'') ps of
        Some p \<Rightarrow> get_data (part_body p)
      | None \<Rightarrow>
          (case find (\<lambda>p. mimeType p = ''text/html'') (rev ps) of
             Some p \<Rightarrow> get_data (part_body p)
           | None \<Rightarrow> body))"
proof (induction ps arbitrary: body)
  case Nil
  show ?case by simp
next
  case (Cons p ps)
  show ?case
    by (simp add: Cons.IH find_snoc split: option.splits)
qed

text \<open>
  Claim C7. For a message with parts, the body handed to the normalizer is the payload of
  the first part of type \<^verbatim>\<open>text/plain\<close>; when no part has that type it is the payload of
  the last part of type \<^verbatim>\<open>text/html\<close> in scan order; for a message without parts it is
  the payload of the message body. Both classes select the same way.
\<close>

theorem body_selection:
  "summarizer_get_email_content_body pl = selected_body_spec pl
   \<and> extractor_get_email_content_body pl = selected_body_spec pl"
  by (simp add: summarizer_get_email_content_body_def extractor_get_email_content_body_def
      selected_body_spec_def scan_parts_spec split: option.splits)

text \<open>C7 at three messages: plain parts among html parts, html parts only, no parts.\<close>

theorem body_selection_witness:
  "summarizer_get_email_content_body
     \<lparr>headers = [], parts = Some [text_part ''text/html'' ''h1'', text_part ''text/plain'' ''p1'',
        text_part ''text/html'' ''h2'', text_part ''text/plain'' ''p2''], payload_body = \<lparr>data = None\<rparr>\<rparr> = ''p1''
   \<and> extractor_get_email_content_body
     \<lparr>headers = [], parts = Some [text_part ''text/html'' ''h1'', text_part ''image/png'' ''i'',
        text_part ''text/html'' ''h2''], payload_body = \<lparr>data = None\<rparr>\<rparr> = ''h2''
   \<and> summarizer_get_email_content_body
     \<lparr>headers = [], parts = None, payload_body = \<lparr>data = Some ''b''\<rparr>\<rparr> = ''b''"
proof -
  have a: "selected_body_spec
     \<lparr>headers = [], parts = Some [text_part ''text/html'' ''h1'', text_part ''text/plain'' ''p1'',
        text_part ''text/html'' ''h2'', text_part ''text/plain'' ''p2''], payload_body = \<lparr>data = None\<rparr>\<rparr> = ''p1''"
    by (simp add: selected_body_spec_def text_part_def get_data_def)
  have b: "selected_body_spec
     \<lparr>headers = [], parts = Some [text_part ''text/html'' ''h1'', text_part ''image/png'' ''i'',
        text_part ''text/html'' ''h2''], payload_body = \<lparr>data = None\<rparr>\<rparr> = ''h2''"
    by (simp add: selected_body_spec_def text_part_def get_data_def)
  have c: "selected_body_spec \<lparr>headers = [], parts = None, payload_body = \<lparr>data = Some ''b''\<rparr>\<rparr> = ''b''"
    by (simp add: selected_body_spec_def get_data_def)
  show ?thesis
    using a b c body_selection by metis
qed

subsection \<open>Claim on the two variants\<close>

text \<open>
  Claim C10. The two classes implement the same text pipeline: for every input string their
  \<^verbatim>\<open>extract_urls_from_text\<close> return equal results, and so do their
  \<^verbatim>\<open>clean_email_content\<close> (with the same decoder and the same HTML parser).
\<close>

theorem variants_same_text_pipeline:
  "summarizer_extract_urls_from_text t = extractor_extract_urls_from_text t
   \<and> summarizer_clean_email_content b64decode_utf8 soup_get_text c
     = extractor_clean_email_content b64decode_utf8 soup_get_text c"
  by (simp add: summarizer_extract_urls_from_text_def extractor_extract_urls_from_text_def
      summarizer_clean_email_content_def extractor_clean_email_content_def)

subsection \<open>Claims on the digest\<close>

lemma foldl_extend: "foldl (\<lambda>acc e. acc @ f e) acc es = acc @ concat (map f es)"
  by (induction es arbitrary: acc) auto

lemma all_urls_of_concat: "all_urls_of emails = concat (map urls emails)"
  by (simp add: all_urls_of_def foldl_extend)

lemma length_concat_sum: "length (concat xss) = sum_list (map length xss)"
  by (induction xss) auto

lemma list_set_props:
  "distinct (list_set (all_urls_of emails))"
  "set (list_set (all_urls_of emails)) = (\<Union>e \<in> set emails. set (urls e))"
  "length (list_set (all_urls_of emails)) \<le> sum_list (map (\<lambda>e. length (urls e)) emails)"
proof -
  show "distinct (list_set (all_urls_of emails))" by (simp add: list_set_def)
  show "set (list_set (all_urls_of emails)) = (\<Union>e \<in> set emails. set (urls e))"
    by (simp add: list_set_def all_urls_of_concat)
  have "length (list_set (all_urls_of emails)) \<le> length (concat (map urls emails))"
    by (simp add: list_set_def all_urls_of_concat)
  also have "\<dots> = sum_list (map (\<lambda>e. length (urls e)) emails)"
    by (simp add: length_concat_sum comp_def)
  finally show "length (list_set (all_urls_of emails)) \<le> sum_list (map (\<lambda>e. length (urls e)) emails)" .
qed

lemma summarizer_digest_fields:
  assumes "emails \<noteq> []"
  shows "summarizer_create_digest emails ''total_emails'' = Some (VInt (int (length emails)))"
    and "summarizer_create_digest emails ''unique_urls'' = Some (VStrList (list_set (all_urls_of emails)))"
    and "summarizer_create_digest emails ''top_senders''
          = Some (VPairs (take 5 (py_sorted_reverse snd (sender_counts_of emails))))"
  using assms by (simp_all add: summarizer_create_digest_def Let_def)

lemma extractor_digest_fields:
  assumes "emails \<noteq> []"
  shows "extractor_create_digest nl emails ''total_emails'' = Some (VInt (int (length emails)))"
    and "extractor_create_digest nl emails ''unique_urls'' = Some (VStrList (list_set (all_urls_of emails)))"
    and "extractor_create_digest nl emails ''top_senders''
          = Some (VPairs (take 5 (py_sorted_reverse snd (sender_counts_of emails))))"
    and "extractor_create_digest nl emails ''url_domains''
          = Some (VPairs (take 10 (py_sorted_reverse snd (url_domains_of nl (all_urls_of emails)))))"
  using assms by (simp_all add: extractor_create_digest_def Let_def)

text \<open>
  Claim C1. For every non-empty list of email records, in both classes, the digest has
  \<^verbatim>\<open>total_emails\<close> equal to the length of the list, and \<^verbatim>\<open>unique_urls\<close> is a duplicate-free
  list whose set is the union of the \<^verbatim>\<open>urls\<close> of the records and whose length is at most the
  sum of the lengths of these lists.
\<close>

theorem digest_totals:
  "(ai_emails \<noteq> [] \<longrightarrow>
      summarizer_create_digest ai_emails ''total_emails'' = Some (VInt (int (length ai_emails)))
      \<and> (\<exists>us. summarizer_create_digest ai_emails ''unique_urls'' = Some (VStrList us)
            \<and> distinct us \<and> set us = (\<Union>e \<in> set ai_emails. set (urls e))
            \<and> length us \<le> sum_list (map (\<lambda>e. length (urls e)) ai_emails)))
   \<and> (url_emails \<noteq> [] \<longrightarrow>
      extractor_create_digest urlparse_netloc url_emails ''total_emails'' = Some (VInt (int (length url_emails)))
      \<and> (\<exists>us. extractor_create_digest urlparse_netloc url_emails ''unique_urls'' = Some (VStrList us)
            \<and> distinct us \<and> set us = (\<Union>e \<in> set url_emails. set (urls e))
            \<and> length us \<le> sum_list (map (\<lambda>e. length (urls e)) url_emails)))"
  using list_set_props [of ai_emails] list_set_props [of url_emails]
  by (simp add: summarizer_digest_fields extractor_digest_fields)

text \<open>C1 at two records that share one URL.\<close>

theorem digest_totals_witness:
  "summarizer_create_digest
      [ai_email_of ''a'' [''http://x.io'', ''http://y.io''], ai_email_of ''b'' [''http://x.io'']]
      ''total_emails'' = Some (VInt 2)
   \<and> extractor_create_digest netloc_of
      [url_email_of ''a'' [''http://x.io'', ''http://y.io''], url_email_of ''b'' [''http://x.io'']]
      ''total_emails'' = Some (VInt 2)"
  using digest_totals [of
      "[ai_email_of ''a'' [''http://x.io'', ''http://y.io''], ai_email_of ''b'' [''http://x.io'']]"
      "[url_email_of ''a'' [''http://x.io'', ''http://y.io''], url_email_of ''b'' [''http://x.io'']]"
      netloc_of]
  by simp

text \<open>
  Claim C2, as stated, fails: for the empty list \<^verbatim>\<open>create_digest\<close> returns the empty dict,
  which has no key \<^verbatim>\<open>total_emails\<close>.
\<close>

theorem empty_digest_counterexample:
  "summarizer_create_digest [] ''total_emails'' \<noteq> Some (VInt 0)
   \<and> extractor_create_digest netloc_of [] ''total_emails'' \<noteq> Some (VInt 0)"
  by (simp add: summarizer_create_digest_def extractor_create_digest_def)

text \<open>
  Claim C2, amended. For the empty list \<^verbatim>\<open>create_digest\<close> of either class returns the empty
  dict \<^verbatim>\<open>{}\<close>, with no key at all, and raises nothing.
\<close>

theorem empty_digest:
  "summarizer_create_digest [] = Map.empty \<and> extractor_create_digest urlparse_netloc [] = Map.empty"
  by (simp add: summarizer_create_digest_def extractor_create_digest_def)

subsection \<open>Counting and ranking\<close>

text \<open>The counting loop builds the grouped counts in first-seen order, and
  \<^verbatim>\<open>sorted(..., reverse=True)\<close> ranks them: descending, ties in their given order.\<close>

lemma first_seen_set: "set (first_seen xs) = set xs"
  by (induction xs) auto

lemma first_seen_distinct: "distinct (first_seen xs)"
  by (induction xs) (auto simp: distinct_removeAll)

lemma first_seen_snoc:
  "first_seen (xs @ [x]) = (if x \<in> set xs then first_seen xs else first_seen xs @ [x])"
  by (induction xs) auto

lemma count_list_snoc: "count_list (xs @ [x]) y = count_list xs y + (if x = y then 1 else 0)"
  by (induction xs) auto

lemma dict_get_tabulate:
  "dict_get (map (\<lambda>x. (x, f x)) xs) k d = (if k \<in> set xs then f k else d)"
  by (induction xs) (auto simp: dict_get_def)

lemma dict_set_tabulate:
  "distinct xs \<Longrightarrow> dict_set (map (\<lambda>x. (x, f x)) xs) k v =
     (if k \<in> set xs then map (\<lambda>x. (x, (f(k := v)) x)) xs
      else map (\<lambda>x. (x, f x)) xs @ [(k, v)])"
  by (induction xs) auto

lemma count_key_grouped: "count_key (grouped_counts ks) k = grouped_counts (ks @ [k])"
proof -
  let ?f = "\<lambda>x. int (count_list ks x)"
  have g: "dict_get (grouped_counts ks) k 0 = ?f k"
    by (simp add: grouped_counts_def dict_get_tabulate first_seen_set)
  have "count_key (grouped_counts ks) k =
      (if k \<in> set ks then map (\<lambda>x. (x, (?f(k := ?f k + 1)) x)) (first_seen ks)
       else map (\<lambda>x. (x, ?f x)) (first_seen ks) @ [(k, ?f k + 1)])"
    unfolding count_key_def g
    by (simp add: grouped_counts_def dict_set_tabulate [OF first_seen_distinct] first_seen_set)
  also have "\<dots> = grouped_counts (ks @ [k])"
    by (auto simp: grouped_counts_def first_seen_snoc count_list_snoc first_seen_set)
  finally show ?thesis .
qed

lemma count_keys_grouped: "count_keys ks = grouped_counts ks"
proof (induction ks rule: rev_induct)
  case Nil
  show ?case by (simp add: count_keys_def grouped_counts_def)
next
  case (snoc k ks)
  then show ?case by (simp add: count_keys_def count_key_grouped)
qed

lemma sender_counts_grouped: "sender_counts_of emails = grouped_counts (map sender emails)"
  unfolding count_keys_grouped [symmetric]
  by (simp add: sender_counts_of_def count_keys_def foldl_map)

lemma py_sorted_reverse_ranking: "ranking_of xs (py_sorted_reverse snd xs)"
proof -
  have "sorted (map snd (sort_key snd (rev xs)))" by simp
  then have "sorted_wrt (\<lambda>p q. snd p \<le> snd q) (sort_key snd (rev xs))"
    by (simp add: sorted_map)
  then have "sorted_wrt (\<lambda>p q. snd q \<le> snd p) (rev (sort_key snd (rev xs)))"
    by (simp add: sorted_wrt_rev)
  moreover have "filter (\<lambda>p. snd p = n) (rev (sort_key snd (rev xs))) = filter (\<lambda>p. snd p = n) xs" for n
  proof -
    have "filter (\<lambda>p. snd p = n) (rev (sort_key snd (rev xs)))
        = rev (filter (\<lambda>p. snd p = n) (sort_key snd (rev xs)))"
      by (simp only: rev_filter)
    also have "\<dots> = rev (filter (\<lambda>p. snd p = n) (rev xs))"
      by (simp only: sort_key_stable)
    also have "\<dots> = filter (\<lambda>p. snd p = n) xs"
      by (simp only: rev_filter rev_rev_ident)
    finally show ?thesis .
  qed
  ultimately show ?thesis
    by (simp add: ranking_of_def py_sorted_reverse_def)
qed

lemma url_domains_fold:
  "foldl (\<lambda>url_domains url. case nl url of Some domain \<Rightarrow> count_key url_domains domain | None \<Rightarrow> url_domains) d us
    = foldl count_key d (List.map_filter nl us)"
  by (induction us arbitrary: d) (auto split: option.splits)

lemma url_domains_grouped: "url_domains_of nl us = grouped_counts (List.map_filter nl us)"
  unfolding count_keys_grouped [symmetric]
  by (simp add: url_domains_of_def url_domains_fold count_keys_def)

lemma six_senders_ranked:
  assumes "distinct [a, b, c]"
  shows "py_sorted_reverse snd (grouped_counts [a, b, a, c, b, a]) = [(a, 3), (b, 2), (c, 1)]"
proof -
  from assms have "grouped_counts [a, b, a, c, b, a] = [(a, 3), (b, 2), (c, 1)]"
    by (auto simp: grouped_counts_def)
  then show ?thesis by (simp add: py_sorted_reverse_def)
qed

text \<open>
  Claim C8. For every non-empty list of records, in both classes, \<^verbatim>\<open>top_senders\<close> holds the
  first five entries of the ranking of the grouped sender counts: one pair per exact sender
  string with the number of its records, in descending order of count, pairs of equal count
  in the order of first appearance of their senders. Records from the senders
  a, b, a, c, b, a (three different strings) give (a, 3), (b, 2), (c, 1).
\<close>

theorem top_senders_ranking:
  "(ai_emails \<noteq> [] \<longrightarrow>
      (\<exists>ranked. summarizer_create_digest ai_emails ''top_senders'' = Some (VPairs (take 5 ranked))
         \<and> ranking_of (grouped_counts (map sender ai_emails)) ranked))
   \<and> (url_emails \<noteq> [] \<longrightarrow>
      (\<exists>ranked. extractor_create_digest urlparse_netloc url_emails ''top_senders'' = Some (VPairs (take 5 ranked))
         \<and> ranking_of (grouped_counts (map sender url_emails)) ranked))
   \<and> (distinct [a, b, c] \<and> map sender ai_emails = [a, b, a, c, b, a] \<longrightarrow>
      summarizer_create_digest ai_emails ''top_senders'' = Some (VPairs [(a, 3), (b, 2), (c, 1)]))"
proof (intro conjI impI)
  assume "ai_emails \<noteq> []"
  then show "\<exists>ranked. summarizer_create_digest ai_emails ''top_senders'' = Some (VPairs (take 5 ranked))
         \<and> ranking_of (grouped_counts (map sender ai_emails)) ranked"
    using py_sorted_reverse_ranking [of "grouped_counts (map sender ai_emails)"]
    by (auto simp: summarizer_digest_fields sender_counts_grouped)
next
  assume "url_emails \<noteq> []"
  then show "\<exists>ranked. extractor_create_digest urlparse_netloc url_emails ''top_senders'' = Some (VPairs (take 5 ranked))
         \<and> ranking_of (grouped_counts (map sender url_emails)) ranked"
    using py_sorted_reverse_ranking [of "grouped_counts (map sender url_emails)"]
    by (auto simp: extractor_digest_fields sender_counts_grouped)
next
  assume a: "distinct [a, b, c] \<and> map sender ai_emails = [a, b, a, c, b, a]"
  then have "ai_emails \<noteq> []" by auto
  with a show "summarizer_create_digest ai_emails ''top_senders'' = Some (VPairs [(a, 3), (b, 2), (c, 1)])"
    by (simp add: summarizer_digest_fields sender_counts_grouped six_senders_ranked)
qed

text \<open>C8 at the six records of the claim, with the senders A, B and C.\<close>

theorem top_senders_ranking_witness:
  "summarizer_create_digest
     [ai_email_of ''A'' [], ai_email_of ''B'' [], ai_email_of ''A'' [],
      ai_email_of ''C'' [], ai_email_of ''B'' [], ai_email_of ''A'' []] ''top_senders''
   = Some (VPairs [(''A'', 3), (''B'', 2), (''C'', 1)])"
  (is "summarizer_create_digest ?es _ = _")
proof -
  have h: "distinct [''A'', ''B'', ''C''] \<and> map sender ?es = [''A'', ''B'', ''A'', ''C'', ''B'', ''A'']"
    by (simp add: ai_email_of_def)
  show ?thesis
    by (rule top_senders_ranking [of ?es "[]" netloc_of "''A''" "''B''" "''C''",
          THEN conjunct2, THEN conjunct2, THEN mp, OF h])
qed

text \<open>A tie: B and A both have two records, and B was seen first.\<close>

lemma top_senders_tie:
  "extractor_create_digest netloc_of
     [url_email_of ''B'' [], url_email_of ''A'' [], url_email_of ''A'' [],
      url_email_of ''C'' [], url_email_of ''B'' []] ''top_senders''
   = Some (VPairs [(''B'', 2), (''A'', 2), (''C'', 1)])"
  by (simp add: extractor_create_digest_def Let_def sender_counts_of_def url_email_of_def
      count_key_def dict_get_def py_sorted_reverse_def)

text \<open>
  What the extractor computes: \<^verbatim>\<open>url_domains\<close> holds the first ten entries of the ranking
  of the grouped domain counts, taken over \<^verbatim>\<open>all_urls\<close>, the concatenation of the records'
  \<^verbatim>\<open>urls\<close> lists, where a URL stands once for each record that holds it.
\<close>

lemma url_domains_ranking:
  assumes "url_emails \<noteq> []"
  shows "\<exists>ranked. extractor_create_digest urlparse_netloc url_emails ''url_domains''
            = Some (VPairs (take 10 ranked))
         \<and> ranking_of (grouped_counts (List.map_filter urlparse_netloc (concat (map urls url_emails)))) ranked"
  using assms
    py_sorted_reverse_ranking [of "grouped_counts (List.map_filter urlparse_netloc (concat (map urls url_emails)))"]
  by (auto simp: extractor_digest_fields url_domains_grouped all_urls_of_concat)

text \<open>
  Claim C9: \<^verbatim>\<open>url_domains\<close> of the extractor's digest is computed over the set of unique
  URLs, each distinct URL counting once for its domain. The code does not do this: its loop
  runs over \<^verbatim>\<open>all_urls\<close>. For two records that hold the same URL the extractor gives the
  domain the count 2, where the unique URLs give 1, and where the same loop in the
  summarizer's \<^verbatim>\<open>main\<close>, which runs over \<^verbatim>\<open>digest['unique_urls']\<close>, gives 1.
\<close>

theorem url_domains_counts_duplicates:
  "extractor_create_digest netloc_of
     [url_email_of ''a'' [''http://a.com/x''], url_email_of ''b'' [''http://a.com/x'']] ''url_domains''
     = Some (VPairs [(''a.com'', 2)])
   \<and> spec_url_domains netloc_of ([''http://a.com/x''] @ [''http://a.com/x'']) = [(''a.com'', 1)]
   \<and> summarizer_create_digest
     [ai_email_of ''a'' [''http://a.com/x''], ai_email_of ''b'' [''http://a.com/x'']] ''unique_urls''
     = Some (VStrList [''http://a.com/x''])
   \<and> summarizer_main_url_domains netloc_of [''http://a.com/x''] = [(''a.com'', 1)]"
  by (simp add: extractor_create_digest_def summarizer_create_digest_def Let_def all_urls_of_def
      url_domains_of_def summarizer_main_url_domains_def url_email_of_def ai_email_of_def
      netloc_of_def count_key_def dict_get_def py_sorted_reverse_def list_set_def
      spec_url_domains_def grouped_counts_def)

subsection \<open>The cleaned text\<close>

text \<open>The result of the whitespace clean-up is one line, has no white space at either end
  and no two spaces in a row.\<close>

lemma nds_append:
  "no_double_space (xs @ ys) \<longleftrightarrow>
     no_double_space xs \<and> no_double_space ys
     \<and> \<not> (xs \<noteq> [] \<and> ys \<noteq> [] \<and> last xs = space \<and> hd ys = space)"
proof (induction xs rule: no_double_space.induct)
  case (1 c d ds)
  then show ?case by auto
next
  case (2 c)
  show ?case by (cases ys) auto
next
  case 3
  show ?case by simp
qed

lemma nds_rev: "no_double_space (rev xs) = no_double_space xs"
proof (induction xs rule: no_double_space.induct)
  case (1 c d ds)
  have "no_double_space (rev (c # d # ds)) = no_double_space (rev (d # ds) @ [c])" by simp
  also have "\<dots> = (no_double_space (rev (d # ds)) \<and> \<not> (d = space \<and> c = space))"
    by (subst nds_append) (auto simp: last_rev)
  finally show ?case using 1 by auto
qed simp_all

lemma nds_dropWhile: "no_double_space xs \<Longrightarrow> no_double_space (dropWhile P xs)"
proof -
  assume "no_double_space xs"
  then have "no_double_space (takeWhile P xs @ dropWhile P xs)" by simp
  then show ?thesis unfolding nds_append by blast
qed

lemma nds_strip: "no_double_space xs \<Longrightarrow> no_double_space (strip xs)"
  by (simp add: strip_def nds_rev nds_dropWhile)

lemma set_strip: "set (strip xs) \<subseteq> set xs"
proof -
  have "set (dropWhile isspace (rev (dropWhile isspace xs))) \<subseteq> set (rev (dropWhile isspace xs))"
    by (meson set_dropWhileD subsetI)
  also have "\<dots> \<subseteq> set xs" using set_dropWhileD by fastforce
  finally show ?thesis by (simp add: strip_def)
qed

lemma last_dropWhile: "dropWhile P xs \<noteq> [] \<Longrightarrow> last (dropWhile P xs) = last xs"
  by (induction xs) (auto split: if_splits)

lemma strip_ends:
  assumes "strip xs \<noteq> []"
  shows "\<not> isspace (hd (strip xs))" and "\<not> isspace (last (strip xs))"
proof -
  let ?a = "dropWhile isspace xs"
  let ?b = "dropWhile isspace (rev ?a)"
  from assms have b: "?b \<noteq> []" by (simp add: strip_def)
  have a: "?a \<noteq> []"
  proof
    assume e: "?a = []"
    have "?b = []" unfolding e by simp
    with b show False by simp
  qed
  have "hd (strip xs) = last ?b" using b by (simp add: strip_def hd_rev)
  also have "\<dots> = last (rev ?a)" using b by (rule last_dropWhile)
  also have "\<dots> = hd ?a" using a by (simp add: last_rev)
  finally show "\<not> isspace (hd (strip xs))" using hd_dropWhile [OF a] by simp
  have "last (strip xs) = hd ?b" using b by (simp add: strip_def last_rev)
  then show "\<not> isspace (last (strip xs))" using hd_dropWhile [OF b] by simp
qed

lemma split_first_piece:
  "\<exists>p ps. split_double_space s = p # ps \<and> (p = [] \<or> (s \<noteq> [] \<and> hd p = hd s))"
  by (induction s rule: split_double_space.induct) (auto simp: push_front_def)

lemma split_pieces_nds: "p \<in> set (split_double_space s) \<Longrightarrow> no_double_space p"
proof (induction s arbitrary: p rule: split_double_space.induct)
  case (1 c d ds)
  show ?case
  proof (cases "c = space \<and> d = space")
    case True
    with 1 show ?thesis by auto
  next
    case False
    from split_first_piece [of "d # ds"] obtain q qs where
      q: "split_double_space (d # ds) = q # qs" "q = [] \<or> hd q = d" by auto
    with False 1(3) have "p = c # q \<or> p \<in> set qs" by (auto simp: push_front_def)
    moreover have "no_double_space q" using 1(2) [OF False] q(1) by simp
    then have "no_double_space (c # q)" using q(2) False by (cases q) auto
    moreover have "p \<in> set qs \<Longrightarrow> no_double_space p" using 1(2) [OF False] q(1) by simp
    ultimately show ?thesis by blast
  qed
qed auto

lemma split_pieces_set: "p \<in> set (split_double_space s) \<Longrightarrow> set p \<subseteq> set s"
proof (induction s arbitrary: p rule: split_double_space.induct)
  case (1 c d ds)
  then show ?case by (fastforce simp: push_front_def split: if_splits list.splits)
qed auto

lemma splitlines_no_boundary:
  "l \<in> set (splitlines s) \<Longrightarrow> x \<in> set l \<Longrightarrow> \<not> line_boundary x"
proof (induction s arbitrary: l rule: splitlines.induct)
  case (1 c d ds)
  then show ?case by (fastforce simp: push_front_def split: if_splits list.splits)
next
  case (2 c)
  then show ?case by (auto split: if_splits)
qed auto

lemma space_isspace: "isspace space" and space_no_boundary: "\<not> line_boundary space"
  by (simp_all add: isspace_def line_boundary_def space_def)

lemma join_space_ends:
  assumes "cs \<noteq> []" and "\<forall>c \<in> set cs. c \<noteq> []"
  shows "join_space cs \<noteq> [] \<and> hd (join_space cs) = hd (hd cs)
         \<and> last (join_space cs) = last (last cs)"
  using assms
proof (induction cs rule: join_space.induct)
  case (3 x y ys)
  then show ?case by auto
qed auto

lemma join_space_nds:
  assumes "\<forall>c \<in> set cs. c \<noteq> [] \<and> \<not> isspace (hd c) \<and> \<not> isspace (last c) \<and> no_double_space c"
  shows "no_double_space (join_space cs)"
  using assms
proof (induction cs rule: join_space.induct)
  case (3 x y ys)
  let ?j = "join_space (y # ys)"
  from 3 have j: "no_double_space ?j" by simp
  from 3(2) have ne: "\<forall>c \<in> set (y # ys). c \<noteq> []" by simp
  from join_space_ends [OF _ ne] have e: "?j \<noteq> []" "hd ?j = hd y" by simp_all
  from 3(2) have y: "hd y \<noteq> space" and x: "x \<noteq> []" "last x \<noteq> space" "no_double_space x"
    using space_isspace by auto
  from j e y have "no_double_space (space # ?j)" by (cases ?j) auto
  with x have "no_double_space (x @ space # ?j)" by (simp add: nds_append)
  then show ?case by simp
qed auto

lemma join_space_set: "set (join_space cs) \<subseteq> insert space (\<Union>c \<in> set cs. set c)"
  by (induction cs rule: join_space.induct) auto

lemma clean_whitespace_chunks:
  assumes "c \<in> set (filter (\<lambda>chunk. chunk \<noteq> [])
              (concat (map (\<lambda>line. map strip (split_double_space line)) (map strip (splitlines t)))))"
  shows "c \<noteq> [] \<and> \<not> isspace (hd c) \<and> \<not> isspace (last c) \<and> no_double_space c
         \<and> (\<forall>x \<in> set c. \<not> line_boundary x)"
proof -
  from assms obtain l p where c: "c \<noteq> []" "c = strip p"
    and p: "p \<in> set (split_double_space (strip l))" and l: "l \<in> set (splitlines t)"
    by auto
  have "no_double_space c" using split_pieces_nds [OF p] c(2) by (simp add: nds_strip)
  moreover have "\<not> isspace (hd c)" "\<not> isspace (last c)" using strip_ends [of p] c by simp_all
  moreover have "set c \<subseteq> set l"
    using set_strip [of p] split_pieces_set [OF p] set_strip [of l] c(2) by blast
  then have "\<forall>x \<in> set c. \<not> line_boundary x" using splitlines_no_boundary [OF l] by blast
  ultimately show ?thesis using c(1) by blast
qed

lemma clean_whitespace_normal:
  "single_line (clean_whitespace t) \<and> trimmed (clean_whitespace t) \<and> no_double_space (clean_whitespace t)"
proof -
  let ?cs = "filter (\<lambda>chunk. chunk \<noteq> [])
      (concat (map (\<lambda>line. map strip (split_double_space line)) (map strip (splitlines t))))"
  have r: "clean_whitespace t = join_space ?cs" by (simp add: clean_whitespace_def Let_def)
  have ok: "\<forall>c \<in> set ?cs. c \<noteq> [] \<and> \<not> isspace (hd c) \<and> \<not> isspace (last c) \<and> no_double_space c
         \<and> (\<forall>x \<in> set c. \<not> line_boundary x)"
    using clean_whitespace_chunks by blast
  have "\<forall>x \<in> set (join_space ?cs). \<not> line_boundary x"
    using join_space_set [of ?cs] ok space_no_boundary by blast
  then have 1: "single_line (join_space ?cs)" by (simp add: single_line_def list_all_iff)
  have 2: "trimmed (join_space ?cs)"
  proof (cases "?cs = []")
    case True
    then show ?thesis by (simp add: trimmed_def)
  next
    case False
    from ok have ne: "\<forall>c \<in> set ?cs. c \<noteq> []" by blast
    from join_space_ends [OF False ne] ok False show ?thesis
      by (metis trimmed_def hd_in_set last_in_set)
  qed
  have 3: "no_double_space (join_space ?cs)" using ok by (intro join_space_nds) blast
  from 1 2 3 show ?thesis unfolding r by blast
qed

lemma clean_whitespace_example:
  "clean_whitespace (ustr ''  Hello   World '' @ [0x0A, 0x0D, 0x0A, 0x2028] @ ustr '' foo'' @ [0x09]
      @ ustr ''bar  a    b'' @ [0x3000])
   = ustr ''Hello World foo'' @ [0x09] @ ustr ''bar a b''"
  by (simp add: clean_whitespace_def ustr_def strip_def push_front_def isspace_def
      line_boundary_def space_def)

lemma clean_whitespace_plain: "clean_whitespace (ustr ''%%%not-base64%%%'') = ustr ''%%%not-base64%%%''"
  by (simp add: clean_whitespace_def ustr_def strip_def push_front_def isspace_def
      line_boundary_def space_def)

subsection \<open>Claim on \<^verbatim>\<open>clean_email_content\<close>\<close>

text \<open>
  Claim C6, as stated, fails: only the decoding stands in a \<^verbatim>\<open>try\<close>. When the HTML
  parser raises, \<^verbatim>\<open>clean_email_content\<close> raises.
\<close>

theorem clean_email_content_counterexample:
  "summarizer_clean_email_content decode_fails soup_stub (Some (ustr ''<![x y]>''))
     = Inl (Raised ''ParserRejectedMarkup'')
   \<and> extractor_clean_email_content decode_fails soup_stub (Some (ustr ''<![x y]>''))
     = Inl (Raised ''ParserRejectedMarkup'')"
  by (simp add: summarizer_clean_email_content_def extractor_clean_email_content_def
      decode_fails_def soup_stub_def ustr_def)

text \<open>
  Claim C6, amended. For \<^verbatim>\<open>clean_email_content\<close> of either class, with any decoder and
  any HTML parser: a missing or empty input gives the empty string; a payload whose decoding
  fails is handled as literal text, and the failure goes no further; whatever the function
  returns is one line (it holds no line-break character), with no white space at either end
  and no two spaces in a row; and the function raises exactly when the input is not empty
  and the HTML parser raises on the decoded (or literal) text.
\<close>

theorem clean_email_content_result:
  assumes "clean = summarizer_clean_email_content b64decode_utf8 soup_get_text
         \<or> clean = extractor_clean_email_content b64decode_utf8 soup_get_text"
  shows "clean None = Inr [] \<and> clean (Some []) = Inr []
   \<and> (c \<noteq> [] \<and> b64decode_utf8 c = None \<longrightarrow>
        clean (Some c) = (case soup_get_text c of Inl e \<Rightarrow> Inl e | Inr t \<Rightarrow> Inr (clean_whitespace t)))
   \<and> (\<forall>r. clean x = Inr r \<longrightarrow> single_line r \<and> trimmed r \<and> no_double_space r)
   \<and> (\<forall>e. clean x = Inl e \<longleftrightarrow>
        (\<exists>c'. x = Some c' \<and> c' \<noteq> []
           \<and> soup_get_text (case b64decode_utf8 c' of Some d \<Rightarrow> d | None \<Rightarrow> c') = Inl e))"
proof -
  from assms have n: "clean None = Inr []"
    by (auto simp: summarizer_clean_email_content_def extractor_clean_email_content_def)
  from assms have d: "clean (Some y) =
     (if y = [] then Inr []
      else case soup_get_text (case b64decode_utf8 y of Some d \<Rightarrow> d | None \<Rightarrow> y) of
             Inl e \<Rightarrow> Inl e
           | Inr t \<Rightarrow> Inr (clean_whitespace t))" for y
    by (auto simp: summarizer_clean_email_content_def extractor_clean_email_content_def Let_def)
  have 1: "clean (Some []) = Inr []" by (simp add: d)
  have 2: "c \<noteq> [] \<and> b64decode_utf8 c = None \<longrightarrow>
        clean (Some c) = (case soup_get_text c of Inl e \<Rightarrow> Inl e | Inr t \<Rightarrow> Inr (clean_whitespace t))"
    by (simp add: d)
  have 3: "\<forall>r. clean x = Inr r \<longrightarrow> single_line r \<and> trimmed r \<and> no_double_space r"
  proof (intro allI impI)
    fix r assume r: "clean x = Inr r"
    have e: "single_line [] \<and> trimmed [] \<and> no_double_space []"
      by (simp add: single_line_def trimmed_def)
    from r have "r = [] \<or> (\<exists>t. r = clean_whitespace t)"
      by (cases x) (auto simp: n d split: if_splits sum.splits)
    with e clean_whitespace_normal show "single_line r \<and> trimmed r \<and> no_double_space r" by blast
  qed
  have 4: "\<forall>e. clean x = Inl e \<longleftrightarrow>
        (\<exists>c'. x = Some c' \<and> c' \<noteq> []
           \<and> soup_get_text (case b64decode_utf8 c' of Some d \<Rightarrow> d | None \<Rightarrow> c') = Inl e)"
    by (cases x) (auto simp: n d split: sum.splits)
  from n 1 2 3 4 show ?thesis by blast
qed

text \<open>C6 at the payload \<^verbatim>\<open>%%%not-base64%%%\<close>: the decoding fails, the text has no markup, and
  the literal text comes back.\<close>

theorem clean_email_content_result_witness:
  "summarizer_clean_email_content decode_fails soup_stub (Some (ustr ''%%%not-base64%%%''))
     = Inr (ustr ''%%%not-base64%%%'')
   \<and> single_line (ustr ''%%%not-base64%%%'') \<and> trimmed (ustr ''%%%not-base64%%%'')
   \<and> no_double_space (ustr ''%%%not-base64%%%'')"
proof -
  let ?f = "summarizer_clean_email_content decode_fails soup_stub"
  let ?c = "ustr ''%%%not-base64%%%''"
  note t = clean_email_content_result [of ?f decode_fails soup_stub ?c "Some ?c", OF disjI1 [OF refl]]
  have a: "?c \<noteq> [] \<and> decode_fails ?c = None" by (simp add: decode_fails_def ustr_def)
  have p: "soup_stub ?c = Inr ?c" by (simp add: soup_stub_def ustr_def)
  have "?f (Some ?c) = (case soup_stub ?c of Inl e \<Rightarrow> Inl e | Inr t \<Rightarrow> Inr (clean_whitespace t))"
    by (rule t [THEN conjunct2, THEN conjunct2, THEN conjunct1, THEN mp, OF a])
  then have v: "?f (Some ?c) = Inr ?c" by (simp add: p clean_whitespace_plain)
  have "single_line ?c \<and> trimmed ?c \<and> no_double_space ?c"
    by (rule t [THEN conjunct2, THEN conjunct2, THEN conjunct2, THEN conjunct1, THEN spec, THEN mp, OF v])
  with v show ?thesis by (rule conjI)
qed

end
